theory Spec2Isabelle
  imports Complex_Main
begin

section \<open>JavaScript values and collections\<close>

text \<open>
  The values that occur as array elements and as predicate results. A finite double is
  represented by the real number it denotes (so \<open>+0\<close> and \<open>-0\<close> coincide); \<open>NaN\<close> is
  a value of its own. \<open>Complex128 re im\<close> is a complex number object as the complex
  typed array hands it out.
\<close>

datatype jsval =
    Undefined
  | Null
  | Boolean bool
  | Number real
  | NaN
  | String string
  | Complex128 real real

text \<open>
  \<open>if ( predicate.call( ... ) )\<close> tests the result with the language's conversion to
  boolean: \<open>undefined\<close>, \<open>null\<close>, \<open>false\<close>, zero, \<open>NaN\<close> and the empty string are
  falsy, everything else (every object included) is truthy.
\<close>

fun truthy :: "jsval \<Rightarrow> bool" where
  "truthy Undefined = False"
| "truthy Null = False"
| "truthy (Boolean b) = b"
| "truthy (Number r) = (r \<noteq> 0)"
| "truthy NaN = False"
| "truthy (String s) = (s \<noteq> [])"
| "truthy (Complex128 re im) = True"

text \<open>
  How the object \<open>x\<close> is read. A \<open>Generic\<close> collection (a plain array, a real typed
  array) has its elements as indexed properties. An \<open>AccessorArray\<close> (the wrapper made
  by \<open>toAccessorArray\<close>, a complex typed array) has no indexed properties and is read
  through its \<open>get\<close> method. The representation of an object is fixed when it is
  created; its contents are not.
\<close>

datatype layout = Generic | AccessorArray

text \<open>
  The objects the call shares with its caller: the contents of \<open>x\<close> and the object
  \<open>thisArg\<close> refers to. The predicate is caller code: it may read and write both, so it
  takes the store and returns the store it leaves behind, with its result. It is invoked
  as \<open>predicate.call( thisArg, value, index, x )\<close>; \<open>x\<close> is the layout together with
  the contents in the store.
\<close>

record 'c world =
  elems :: "jsval list"
  ctx :: 'c

type_synonym 'c predicate = "jsval \<Rightarrow> nat \<Rightarrow> layout \<Rightarrow> 'c world \<Rightarrow> jsval \<times> 'c world"

text \<open>\<open>x.length\<close>, read from the store each time the loop condition is evaluated.\<close>

definition x_length :: "'c world \<Rightarrow> nat" where
  "x_length w = length (elems w)"

text \<open>\<open>x[ i ]\<close>: the indexed property, \<open>undefined\<close> where there is none.\<close>

definition x_index :: "layout \<Rightarrow> 'c world \<Rightarrow> nat \<Rightarrow> jsval" where
  "x_index x w i =
     (case x of
        Generic \<Rightarrow> (if i < length (elems w) then elems w ! i else Undefined)
      | AccessorArray \<Rightarrow> Undefined)"

text \<open>
  Modelled from the spec: the \<open>get\<close> method of an accessor-style collection, whose
  classes live in other packages. \<open>x.get( i )\<close> is the element at index \<open>i\<close>, and
  \<open>undefined\<close> when the index is out of bounds.
\<close>

definition x_get :: "'c world \<Rightarrow> nat \<Rightarrow> jsval" where
  "x_get w i = (if i < length (elems w) then elems w ! i else Undefined)"

text \<open>
  Modelled from the spec: \<open>isAccessorArray\<close> and \<open>resolveGetter\<close> are imported from
  other packages. The dispatcher asks whether the collection is a plain indexable sequence
  or an accessor-style collection; the resolved getter is a function of the collection
  and an index that reads by \<open>get\<close> for an accessor array and by index otherwise.
\<close>

definition isAccessorArray :: "layout \<Rightarrow> bool" where
  "isAccessorArray x = (x = AccessorArray)"

definition resolveGetter :: "layout \<Rightarrow> (layout \<Rightarrow> 'c world \<Rightarrow> nat \<Rightarrow> jsval)" where
  "resolveGetter x =
     (if isAccessorArray x then (\<lambda>arr w idx. x_get w idx)
      else (\<lambda>arr w idx. x_index arr w idx))"


section \<open>The two counters and the dispatcher\<close>

text \<open>
  \<^verbatim>\<open>
  n = 0;
  for ( i = 0; i < x.length; i++ ) {
      if ( predicate.call( thisArg, x[ i ], i, x ) ) {
          n += 1;
      }
  }
  return n;
  \<close>
  The loop reads \<open>x.length\<close> again at every iteration and the predicate may resize
  \<open>x\<close>, so the loop need not end: not returning is the value \<open>None\<close>. The count is a
  natural number (it starts at 0 and grows by 1, far below the range where a double stops
  being exact).
\<close>

partial_function (option) indexed_loop ::
  "layout \<Rightarrow> 'c predicate \<Rightarrow> nat \<Rightarrow> nat \<Rightarrow> 'c world \<Rightarrow> (nat \<times> 'c world) option" where
  "indexed_loop x predicate i n w =
     (if i < x_length w then
        (case predicate (x_index x w i) i x w of
           (r, w') \<Rightarrow> indexed_loop x predicate (i + 1) (if truthy r then n + 1 else n) w')
      else Some (n, w))"

definition indexed :: "layout \<Rightarrow> 'c predicate \<Rightarrow> 'c world \<Rightarrow> (nat \<times> 'c world) option" where
  "indexed x predicate w = indexed_loop x predicate 0 0 w"

text \<open>
  \<^verbatim>\<open>
  get = resolveGetter( x );
  n = 0;
  for ( i = 0; i < x.length; i++ ) {
      if ( predicate.call( thisArg, get( x, i ), i, x ) ) {
          n += 1;
      }
  }
  return n;
  \<close>
  The getter is resolved once, before the loop.
\<close>

partial_function (option) accessors_loop ::
  "(layout \<Rightarrow> 'c world \<Rightarrow> nat \<Rightarrow> jsval) \<Rightarrow> layout \<Rightarrow> 'c predicate \<Rightarrow> nat \<Rightarrow> nat \<Rightarrow> 'c world
     \<Rightarrow> (nat \<times> 'c world) option" where
  "accessors_loop get x predicate i n w =
     (if i < x_length w then
        (case predicate (get x w i) i x w of
           (r, w') \<Rightarrow> accessors_loop get x predicate (i + 1) (if truthy r then n + 1 else n) w')
      else Some (n, w))"

definition accessors :: "layout \<Rightarrow> 'c predicate \<Rightarrow> 'c world \<Rightarrow> (nat \<times> 'c world) option" where
  "accessors x predicate w = accessors_loop (resolveGetter x) x predicate 0 0 w"

definition countIf :: "layout \<Rightarrow> 'c predicate \<Rightarrow> 'c world \<Rightarrow> (nat \<times> 'c world) option" where
  "countIf x predicate w =
     (if isAccessorArray x then accessors x predicate w
      else indexed x predicate w)"


section \<open>What the specification says, in its own words\<close>

text \<open>
  The specification's collection is an ordered, fixed-length sequence: no invocation of
  the predicate changes the length of \<open>x\<close> (it may still write elements and the
  context). The loops read \<open>x.length\<close> at every iteration, so what they return for a
  predicate that resizes \<open>x\<close>, and whether they return at all, is outside what the
  specification describes; the theorems about counts are stated for fixed-length
  collections.
\<close>

definition fixed_length :: "'c predicate \<Rightarrow> bool" where
  "fixed_length p = (\<forall>v i x w. length (elems (snd (p v i x w))) = length (elems w))"

text \<open>
  A predicate that does not depend on the representation of the collection it is handed:
  on either layout it returns the same and does the same to the store.
\<close>

definition layout_blind :: "'c predicate \<Rightarrow> bool" where
  "layout_blind p = (\<forall>v i w. p v i Generic w = p v i AccessorArray w)"

text \<open>
  The indices, among the given ones taken in order, at which the predicate, invoked with
  the element at that index, the index and the collection, returns a truthy value; each
  invocation starts in the store the previous one left. The result comes with the store
  after the last invocation.
\<close>

fun passing :: "layout \<Rightarrow> 'c predicate \<Rightarrow> nat list \<Rightarrow> 'c world \<Rightarrow> nat list \<times> 'c world" where
  "passing x p [] w = ([], w)"
| "passing x p (i # is) w =
     (case p (elems w ! i) i x w of
        (r, w') \<Rightarrow>
          (case passing x p is w' of
             (hits, w'') \<Rightarrow> (if truthy r then i # hits else hits, w'')))"

text \<open>
  What the predicate returned at each of those invocations, in the order they were made.
\<close>

fun returned :: "layout \<Rightarrow> 'c predicate \<Rightarrow> nat list \<Rightarrow> 'c world \<Rightarrow> jsval list" where
  "returned x p [] w = []"
| "returned x p (i # is) w =
     (case p (elems w ! i) i x w of (r, w') \<Rightarrow> r # returned x p is w')"

text \<open>The number of such indices in \<open>[0, x.length)\<close>, visited from 0 to length - 1.\<close>

definition count_spec :: "layout \<Rightarrow> 'c predicate \<Rightarrow> 'c world \<Rightarrow> nat \<times> 'c world" where
  "count_spec x p w =
     (case passing x p [0..<length (elems w)] w of (hits, w') \<Rightarrow> (length hits, w'))"


section \<open>The predicates of the examples\<close>

text \<open>
  \<^verbatim>\<open>function predicate( value ) { return ( value > 0 ); }\<close>
  documented for numbers. On \<open>true\<close> the comparison holds as well; strings, which the
  comparison would first convert to numbers, do not occur in the examples and are given
  \<open>false\<close> here.
\<close>

fun greater_than_zero :: "jsval \<Rightarrow> bool" where
  "greater_than_zero (Number r) = (r > 0)"
| "greater_than_zero (Boolean b) = b"
| "greater_than_zero _ = False"

definition positive_predicate :: "'c predicate" where
  "positive_predicate v i x w = (Boolean (greater_than_zero v), w)"

text \<open>
  \<^verbatim>\<open>function predicate( value ) { this.count += 1; return ( value > 0 ); }\<close>
  called with the context \<^verbatim>\<open>{ 'count': 0 }\<close>.
\<close>

record counter_object =
  count :: nat

definition counting_predicate :: "counter_object predicate" where
  "counting_predicate v i x w =
     (Boolean (greater_than_zero v), w\<lparr>ctx := (ctx w)\<lparr>count := count (ctx w) + 1\<rparr>\<rparr>)"

text \<open>
  \<^verbatim>\<open>function predicate( value ) { return ( real( value ) > 0 && imag( value ) > 0 ); }\<close>
  on the elements of a complex typed array.
\<close>

fun positive_parts :: "jsval \<Rightarrow> bool" where
  "positive_parts (Complex128 re im) = (re > 0 \<and> im > 0)"
| "positive_parts _ = False"

definition complex_predicate :: "'c predicate" where
  "complex_predicate v i x w = (Boolean (positive_parts v), w)"

text \<open>
  A predicate that looks at its third argument:
  \<^verbatim>\<open>function predicate( value, index, arr ) { return ( arr[ index ] > 0 ); }\<close>
  It reads the collection by index, so on an accessor-style collection it finds
  \<open>undefined\<close>, which is not greater than zero.
\<close>

definition arr_reading_predicate :: "'c predicate" where
  "arr_reading_predicate v i x w = (Boolean (greater_than_zero (x_index x w i)), w)"


section \<open>The trace of invocations\<close>

lemma passing_step:
  assumes "p (elems w ! i) i x w = (r, w')" and "passing x p is w' = (hits, w'')"
  shows "passing x p (i # is) w = (if truthy r then i # hits else hits, w'')"
  using assms by simp

lemma fixed_lengthD:
  "fixed_length p \<Longrightarrow> p v i x w = (r, w') \<Longrightarrow> length (elems w') = length (elems w)"
  unfolding fixed_length_def by (metis snd_conv)

lemma passing_bound: "length (fst (passing x p is w)) \<le> length is"
proof (induction "is" arbitrary: w)
  case Nil then show ?case by simp
next
  case (Cons i "is")
  obtain r w' where pw: "p (elems w ! i) i x w = (r, w')" by (cases "p (elems w ! i) i x w")
  obtain hits w'' where rest: "passing x p is w' = (hits, w'')" by (cases "passing x p is w'")
  from Cons.IH [of w'] rest have "length hits \<le> length is" by simp
  then show ?case unfolding passing_step [OF pw rest] by simp
qed

lemma passing_all:
  assumes "\<forall>r \<in> set (returned x p is w). truthy r"
  shows "fst (passing x p is w) = is"
  using assms
proof (induction "is" arbitrary: w)
  case Nil then show ?case by simp
next
  case (Cons i "is")
  obtain r w' where pw: "p (elems w ! i) i x w = (r, w')" by (cases "p (elems w ! i) i x w")
  obtain hits w'' where rest: "passing x p is w' = (hits, w'')" by (cases "passing x p is w'")
  from Cons.prems pw have all: "truthy r \<and> (\<forall>r \<in> set (returned x p is w'). truthy r)"
    by simp
  from Cons.IH [of w'] all rest have "hits = is" by simp
  with all show ?case unfolding passing_step [OF pw rest] by simp
qed

lemma passing_none:
  assumes "\<forall>r \<in> set (returned x p is w). \<not> truthy r"
  shows "fst (passing x p is w) = []"
  using assms
proof (induction "is" arbitrary: w)
  case Nil then show ?case by simp
next
  case (Cons i "is")
  obtain r w' where pw: "p (elems w ! i) i x w = (r, w')" by (cases "p (elems w ! i) i x w")
  obtain hits w'' where rest: "passing x p is w' = (hits, w'')" by (cases "passing x p is w'")
  from Cons.prems pw
  have none: "\<not> truthy r \<and> (\<forall>r \<in> set (returned x p is w'). \<not> truthy r)"
    by simp
  from Cons.IH [of w'] none rest have "hits = []" by simp
  with none show ?case unfolding passing_step [OF pw rest] by simp
qed

lemma passing_counter:
  assumes "\<forall>v i x w. counter (ctx (snd (p v i x w))) = counter (ctx w) + (1::nat)"
  shows "counter (ctx (snd (passing x p is w))) = counter (ctx w) + length is"
proof (induction "is" arbitrary: w)
  case Nil then show ?case by simp
next
  case (Cons i "is")
  obtain r w' where pw: "p (elems w ! i) i x w = (r, w')" by (cases "p (elems w ! i) i x w")
  obtain hits w'' where rest: "passing x p is w' = (hits, w'')" by (cases "passing x p is w'")
  from assms pw have "counter (ctx w') = counter (ctx w) + 1" by (metis snd_conv)
  moreover from Cons.IH [of w'] rest have "counter (ctx w'') = counter (ctx w') + length is"
    by simp
  ultimately show ?case unfolding passing_step [OF pw rest] by simp
qed

lemma passing_elems:
  assumes "\<forall>v i x w. elems (snd (p v i x w)) = elems w"
  shows "elems (snd (passing x p is w)) = elems w"
proof (induction "is" arbitrary: w)
  case Nil then show ?case by simp
next
  case (Cons i "is")
  obtain r w' where pw: "p (elems w ! i) i x w = (r, w')" by (cases "p (elems w ! i) i x w")
  obtain hits w'' where rest: "passing x p is w' = (hits, w'')" by (cases "passing x p is w'")
  from assms pw have "elems w' = elems w" by (metis snd_conv)
  moreover from Cons.IH [of w'] rest have "elems w'' = elems w'" by simp
  ultimately show ?case unfolding passing_step [OF pw rest] by simp
qed

text \<open>
  For a predicate without effects the trace is a filter: the passing indices are those at
  which the predicate holds of the element, in the one store there is.
\<close>

lemma passing_effect_free:
  assumes "\<forall>v i x w. snd (p v i x w) = w"
  shows "passing x p is w = (filter (\<lambda>i. truthy (fst (p (elems w ! i) i x w))) is, w)"
proof (induction "is")
  case Nil then show ?case by simp
next
  case (Cons i "is")
  obtain r w' where pw: "p (elems w ! i) i x w = (r, w')" by (cases "p (elems w ! i) i x w")
  from assms pw have w': "w' = w" by (metis snd_conv)
  show ?case using Cons.IH pw w' by simp
qed

lemma passing_layout_blind:
  assumes "layout_blind p"
  shows "passing Generic p is w = passing AccessorArray p is w"
proof (induction "is" arbitrary: w)
  case Nil then show ?case by simp
next
  case (Cons i "is")
  have "p (elems w ! i) i Generic w = p (elems w ! i) i AccessorArray w"
    using assms unfolding layout_blind_def by blast
  then show ?case using Cons.IH by (simp split: prod.splits)
qed


section \<open>The loops against the trace\<close>

text \<open>
  Both loops are the same walk once the element read is known to be the element of the
  sequence: from index \<open>i\<close> with \<open>n\<close> counted so far, the loop returns \<open>n\<close> plus the
  number of passing indices among \<open>i, ..., length - 1\<close>. The induction is on the number
  of indices left, which the fixed length makes decrease.
\<close>

lemma accessors_loop_passing:
  assumes fl: "fixed_length p"
    and rd: "\<And>w i. i < length (elems w) \<Longrightarrow> get x w i = elems w ! i"
  shows "i \<le> length (elems w) \<Longrightarrow>
    accessors_loop get x p i n w =
      (case passing x p [i..<length (elems w)] w of
         (hits, w') \<Rightarrow> Some (n + length hits, w'))"
proof (induction "length (elems w) - i" arbitrary: i n w)
  case 0
  then have "i = length (elems w)" by simp
  then show ?case
    by (subst accessors_loop.simps) (simp add: x_length_def)
next
  case (Suc k)
  then have lt: "i < length (elems w)" by simp
  obtain r w' where pw: "p (elems w ! i) i x w = (r, w')" by (cases "p (elems w ! i) i x w")
  have len: "length (elems w') = length (elems w)"
    by (rule fixed_lengthD [OF fl pw])
  obtain hits w'' where rest: "passing x p [Suc i..<length (elems w')] w' = (hits, w'')"
    by (cases "passing x p [Suc i..<length (elems w')] w'")
  have k: "k = length (elems w') - Suc i" using Suc.hyps(2) len by simp
  have le: "Suc i \<le> length (elems w')" using lt len by simp
  have ih: "accessors_loop get x p (Suc i) m w' = Some (m + length hits, w'')" for m
    using Suc.hyps(1) [OF k le, of m] rest by simp
  have upt: "[i..<length (elems w)] = i # [Suc i..<length (elems w')]"
    using lt len by (simp add: upt_conv_Cons)
  have step: "accessors_loop get x p i n w =
      accessors_loop get x p (Suc i) (if truthy r then n + 1 else n) w'"
    by (subst accessors_loop.simps) (simp add: x_length_def lt rd pw)
  show ?case
    unfolding step ih upt by (simp add: pw rest)
qed

lemma indexed_loop_passing:
  assumes fl: "fixed_length p"
  shows "i \<le> length (elems w) \<Longrightarrow>
    indexed_loop Generic p i n w =
      (case passing Generic p [i..<length (elems w)] w of
         (hits, w') \<Rightarrow> Some (n + length hits, w'))"
proof (induction "length (elems w) - i" arbitrary: i n w)
  case 0
  then have "i = length (elems w)" by simp
  then show ?case
    by (subst indexed_loop.simps) (simp add: x_length_def)
next
  case (Suc k)
  then have lt: "i < length (elems w)" by simp
  obtain r w' where pw: "p (elems w ! i) i Generic w = (r, w')"
    by (cases "p (elems w ! i) i Generic w")
  have len: "length (elems w') = length (elems w)"
    by (rule fixed_lengthD [OF fl pw])
  obtain hits w'' where rest: "passing Generic p [Suc i..<length (elems w')] w' = (hits, w'')"
    by (cases "passing Generic p [Suc i..<length (elems w')] w'")
  have k: "k = length (elems w') - Suc i" using Suc.hyps(2) len by simp
  have le: "Suc i \<le> length (elems w')" using lt len by simp
  have ih: "indexed_loop Generic p (Suc i) m w' = Some (m + length hits, w'')" for m
    using Suc.hyps(1) [OF k le, of m] rest by simp
  have upt: "[i..<length (elems w)] = i # [Suc i..<length (elems w')]"
    using lt len by (simp add: upt_conv_Cons)
  have step: "indexed_loop Generic p i n w =
      indexed_loop Generic p (Suc i) (if truthy r then n + 1 else n) w'"
    by (subst indexed_loop.simps) (simp add: x_length_def x_index_def lt pw)
  show ?case
    unfolding step ih upt by (simp add: pw rest)
qed

lemma indexed_returns:
  "fixed_length p \<Longrightarrow> indexed Generic p w = Some (count_spec Generic p w)"
  unfolding indexed_def count_spec_def
  by (simp add: indexed_loop_passing split: prod.splits)

lemma resolveGetter_reads:
  "i < length (elems w) \<Longrightarrow> resolveGetter x x w i = elems w ! i"
  by (cases x) (simp_all add: resolveGetter_def isAccessorArray_def x_get_def x_index_def)

lemma accessors_returns:
  "fixed_length p \<Longrightarrow> accessors x p w = Some (count_spec x p w)"
  unfolding accessors_def count_spec_def
  by (simp add: accessors_loop_passing resolveGetter_reads split: prod.splits)

lemma countIf_returns:
  "fixed_length p \<Longrightarrow> countIf x p w = Some (count_spec x p w)"
  by (cases x) (simp_all add: countIf_def isAccessorArray_def indexed_returns accessors_returns)

text \<open>
  With a predicate without effects the count is the number of indices whose element
  satisfies it, and the store is returned as it was.
\<close>

lemma count_spec_effect_free:
  assumes "\<forall>v i x w. snd (p v i x w) = w"
  shows "count_spec x p w =
    (card {i. i < length (elems w) \<and> truthy (fst (p (elems w ! i) i x w))}, w)"
proof -
  let ?P = "\<lambda>i. truthy (fst (p (elems w ! i) i x w))"
  let ?is = "filter ?P [0..<length (elems w)]"
  have d: "distinct ?is" by simp
  have s: "set ?is = {i. i < length (elems w) \<and> ?P i}" by auto
  have "length ?is = card (set ?is)"
    by (rule distinct_card [OF d, symmetric])
  then have "length ?is = card {i. i < length (elems w) \<and> ?P i}"
    unfolding s .
  then show ?thesis
    unfolding count_spec_def passing_effect_free [OF assms] by simp
qed


section \<open>The claims\<close>

text \<open>
  C1. For every collection \<open>x\<close> (a fixed-length sequence), predicate and context,
  \<open>countIf\<close> returns, and what it returns is the number of indices in \<open>[0, x.length)\<close>
  at which the predicate, invoked with the element, the index and the collection and
  bound to the context, returned a truthy value, the indices being visited in order from
  0 to length - 1; the store is the one the last invocation left.
\<close>

theorem countIf_counts_passing_indices:
  assumes "fixed_length p"
  shows "countIf x p w =
    Some (length (fst (passing x p [0..<length (elems w)] w)),
          snd (passing x p [0..<length (elems w)] w))"
  using countIf_returns [OF assms, of x w]
  by (simp add: count_spec_def split: prod.splits)

theorem countIf_counts_passing_indices_witness:
  "fixed_length counting_predicate \<and>
   countIf Generic counting_predicate
     \<lparr>elems = [Number 0, Number 1, Number 0, Number 1, Number 2], ctx = \<lparr>count = 0\<rparr>\<rparr> =
   Some (3, \<lparr>elems = [Number 0, Number 1, Number 0, Number 1, Number 2], ctx = \<lparr>count = 5\<rparr>\<rparr>)"
proof -
  have h: "fixed_length counting_predicate"
    by (simp add: fixed_length_def counting_predicate_def)
  show ?thesis
    using h countIf_counts_passing_indices [OF h, of Generic
      "\<lparr>elems = [Number 0, Number 1, Number 0, Number 1, Number 2], ctx = \<lparr>count = 0\<rparr>\<rparr>"]
    by (simp add: counting_predicate_def upt_rec)
qed

text \<open>
  C2. On logically-equivalent inputs (the same elements in the same order, the same
  context), one a plain indexed collection and the other an accessor-style collection,
  the direct-index strategy and the accessor strategy both return, with equal counts (and
  equal stores), for the same predicate provided it does not depend on the representation
  of the collection it is handed. The predicate receives the collection itself as its
  third argument, so one that reads it by index sees the elements of the plain collection
  and \<open>undefined\<close> on the accessor-style one, and the counts differ: on the elements
  0, 1, 0, 1, 2 the direct-index strategy returns 3 and the accessor strategy 0.
\<close>

theorem strategies_agree:
  assumes "fixed_length p" and "layout_blind p"
  shows "\<exists>n w'. indexed Generic p w = Some (n, w') \<and> accessors AccessorArray p w = Some (n, w')"
proof -
  have "count_spec Generic p w = count_spec AccessorArray p w"
    by (simp add: count_spec_def passing_layout_blind [OF assms(2)])
  then show ?thesis
    using indexed_returns [OF assms(1), of w] accessors_returns [OF assms(1), of AccessorArray w]
    by (cases "count_spec Generic p w") simp
qed

theorem strategies_agree_witness:
  "fixed_length (positive_predicate :: unit predicate) \<and>
   layout_blind (positive_predicate :: unit predicate) \<and>
   (\<exists>n w'.
      indexed Generic positive_predicate
        \<lparr>elems = [Number 0, Number 1, Number 0, Number 1, Number 2], ctx = ()\<rparr> = Some (n, w') \<and>
      accessors AccessorArray positive_predicate
        \<lparr>elems = [Number 0, Number 1, Number 0, Number 1, Number 2], ctx = ()\<rparr> = Some (n, w'))"
proof -
  have h1: "fixed_length (positive_predicate :: unit predicate)"
    by (simp add: fixed_length_def positive_predicate_def)
  have h2: "layout_blind (positive_predicate :: unit predicate)"
    by (simp add: layout_blind_def positive_predicate_def)
  show ?thesis
    using h1 h2 strategies_agree [OF h1 h2] by simp
qed

theorem strategies_disagree_counterexample:
  "indexed Generic arr_reading_predicate
     \<lparr>elems = [Number 0, Number 1, Number 0, Number 1, Number 2], ctx = ()\<rparr> =
     Some (3, \<lparr>elems = [Number 0, Number 1, Number 0, Number 1, Number 2], ctx = ()\<rparr>) \<and>
   accessors AccessorArray arr_reading_predicate
     \<lparr>elems = [Number 0, Number 1, Number 0, Number 1, Number 2], ctx = ()\<rparr> =
     Some (0, \<lparr>elems = [Number 0, Number 1, Number 0, Number 1, Number 2], ctx = ()\<rparr>)"
proof
  show "indexed Generic arr_reading_predicate
     \<lparr>elems = [Number 0, Number 1, Number 0, Number 1, Number 2], ctx = ()\<rparr> =
     Some (3, \<lparr>elems = [Number 0, Number 1, Number 0, Number 1, Number 2], ctx = ()\<rparr>)"
    by (simp add: indexed_def x_index_def x_length_def arr_reading_predicate_def
        indexed_loop.simps)
  show "accessors AccessorArray arr_reading_predicate
     \<lparr>elems = [Number 0, Number 1, Number 0, Number 1, Number 2], ctx = ()\<rparr> =
     Some (0, \<lparr>elems = [Number 0, Number 1, Number 0, Number 1, Number 2], ctx = ()\<rparr>)"
    by (simp add: accessors_def resolveGetter_def isAccessorArray_def x_get_def x_index_def
        x_length_def arr_reading_predicate_def accessors_loop.simps)
qed

text \<open>
  C3. For every collection of length 0, whatever its representation, the predicate and the
  context, \<open>countIf\<close> returns 0 (and invokes nothing: the store is untouched).
\<close>

theorem countIf_empty:
  "countIf x p \<lparr>elems = [], ctx = c\<rparr> = Some (0, \<lparr>elems = [], ctx = c\<rparr>)"
proof (cases x)
  case Generic
  then show ?thesis
    unfolding countIf_def indexed_def isAccessorArray_def
    by (subst indexed_loop.simps) (simp add: x_length_def)
next
  case AccessorArray
  then show ?thesis
    unfolding countIf_def accessors_def isAccessorArray_def
    by (subst accessors_loop.simps) (simp add: x_length_def)
qed

text \<open>
  C4. For every collection \<open>x\<close> (a fixed-length sequence), if the predicate returns
  true (any truthy value) at every invocation the call makes, \<open>countIf\<close> returns
  \<open>x.length\<close>.
\<close>

theorem countIf_all_pass:
  assumes "fixed_length p"
    and "\<forall>r \<in> set (returned x p [0..<length (elems w)] w). truthy r"
  shows "\<exists>w'. countIf x p w = Some (length (elems w), w')"
  using countIf_returns [OF assms(1), of x w]
    passing_all [OF assms(2)]
  by (cases "passing x p [0..<length (elems w)] w") (simp add: count_spec_def)

theorem countIf_all_pass_witness:
  "fixed_length (positive_predicate :: unit predicate) \<and>
   returned Generic positive_predicate [0..<4]
     \<lparr>elems = [Number 1, Number 1, Number 1, Number 1], ctx = ()\<rparr> =
     [Boolean True, Boolean True, Boolean True, Boolean True] \<and>
   (\<exists>w'. countIf Generic positive_predicate
      \<lparr>elems = [Number 1, Number 1, Number 1, Number 1], ctx = ()\<rparr> = Some (4, w'))"
proof -
  let ?w = "\<lparr>elems = [Number 1, Number 1, Number 1, Number 1], ctx = ()\<rparr>"
  have h1: "fixed_length (positive_predicate :: unit predicate)"
    by (simp add: fixed_length_def positive_predicate_def)
  have r: "returned Generic positive_predicate [0..<4] ?w =
      [Boolean True, Boolean True, Boolean True, Boolean True]"
    by (simp add: positive_predicate_def upt_rec)
  have len: "[0..<length (elems ?w)] = [0..<4]" by (simp add: upt_rec)
  have h2: "\<forall>r \<in> set (returned Generic positive_predicate [0..<length (elems ?w)] ?w). truthy r"
    unfolding len r by simp
  from countIf_all_pass [OF h1 h2]
  obtain w' where "countIf Generic positive_predicate ?w = Some (4, w')"
    by auto
  with h1 r show ?thesis by blast
qed

text \<open>
  C5. For every collection \<open>x\<close> (a fixed-length sequence), if the predicate returns
  false (any falsy value) at every invocation the call makes, \<open>countIf\<close> returns 0.
\<close>

theorem countIf_none_pass:
  assumes "fixed_length p"
    and "\<forall>r \<in> set (returned x p [0..<length (elems w)] w). \<not> truthy r"
  shows "\<exists>w'. countIf x p w = Some (0, w')"
  using countIf_returns [OF assms(1), of x w]
    passing_none [OF assms(2)]
  by (cases "passing x p [0..<length (elems w)] w") (simp add: count_spec_def)

theorem countIf_none_pass_witness:
  "fixed_length (positive_predicate :: unit predicate) \<and>
   returned AccessorArray positive_predicate [0..<4]
     \<lparr>elems = [Number 0, Number 0, Number 0, Number 0], ctx = ()\<rparr> =
     [Boolean False, Boolean False, Boolean False, Boolean False] \<and>
   (\<exists>w'. countIf AccessorArray positive_predicate
      \<lparr>elems = [Number 0, Number 0, Number 0, Number 0], ctx = ()\<rparr> = Some (0, w'))"
proof -
  let ?w = "\<lparr>elems = [Number 0, Number 0, Number 0, Number 0], ctx = ()\<rparr>"
  have h1: "fixed_length (positive_predicate :: unit predicate)"
    by (simp add: fixed_length_def positive_predicate_def)
  have r: "returned AccessorArray positive_predicate [0..<4] ?w =
      [Boolean False, Boolean False, Boolean False, Boolean False]"
    by (simp add: positive_predicate_def upt_rec)
  have len: "[0..<length (elems ?w)] = [0..<4]" by (simp add: upt_rec)
  have h2: "\<forall>r \<in> set (returned AccessorArray positive_predicate [0..<length (elems ?w)] ?w).
      \<not> truthy r"
    unfolding len r by simp
  from countIf_none_pass [OF h1 h2]
  obtain w' where "countIf AccessorArray positive_predicate ?w = Some (0, w')"
    by auto
  with h1 r show ?thesis by blast
qed

text \<open>
  C6. For every collection \<open>x\<close> (a fixed-length sequence), \<open>countIf\<close> invokes the
  predicate exactly once per element: a predicate that adds one to a counter on the
  context at each invocation leaves the counter \<open>x.length\<close> above where it started, so
  equal to \<open>x.length\<close> when it started at 0.
\<close>

theorem countIf_invokes_once_per_element:
  assumes "fixed_length p"
    and "\<forall>v i x w. counter (ctx (snd (p v i x w))) = counter (ctx w) + (1::nat)"
  shows "\<exists>n w'. countIf x p w = Some (n, w') \<and>
    counter (ctx w') = counter (ctx w) + length (elems w)"
  using countIf_returns [OF assms(1), of x w]
    passing_counter [OF assms(2), of x "[0..<length (elems w)]" w]
  by (cases "passing x p [0..<length (elems w)] w") (simp add: count_spec_def)

theorem countIf_invokes_once_per_element_witness:
  "fixed_length counting_predicate \<and>
   (\<forall>v i x w. count (ctx (snd (counting_predicate v i x w))) = count (ctx w) + 1) \<and>
   (\<exists>n w'. countIf AccessorArray counting_predicate
      \<lparr>elems = [Number 0, Number 1, Number 0, Number 1, Number 1], ctx = \<lparr>count = 0\<rparr>\<rparr> =
        Some (n, w') \<and> count (ctx w') = 5)"
proof -
  have h1: "fixed_length counting_predicate"
    by (simp add: fixed_length_def counting_predicate_def)
  have h2: "\<forall>v i x w. count (ctx (snd (counting_predicate v i x w))) = count (ctx w) + 1"
    by (simp add: counting_predicate_def)
  from countIf_invokes_once_per_element [OF h1 h2, of AccessorArray
      "\<lparr>elems = [Number 0, Number 1, Number 0, Number 1, Number 1], ctx = \<lparr>count = 0\<rparr>\<rparr>"]
  obtain n w' where "countIf AccessorArray counting_predicate
      \<lparr>elems = [Number 0, Number 1, Number 0, Number 1, Number 1], ctx = \<lparr>count = 0\<rparr>\<rparr> =
        Some (n, w') \<and> count (ctx w') = 5"
    by auto
  with h1 h2 show ?thesis by blast
qed

text \<open>
  C7. For the complex-valued collection with the elements (0,0), (1,0), (3,4), (0,5) and
  the predicate that requires both the real and the imaginary part to be strictly
  positive, \<open>countIf\<close> returns 1.
\<close>

theorem countIf_complex_example:
  "countIf AccessorArray complex_predicate
     \<lparr>elems = [Complex128 0 0, Complex128 1 0, Complex128 3 4, Complex128 0 5], ctx = c\<rparr> =
   Some (1, \<lparr>elems = [Complex128 0 0, Complex128 1 0, Complex128 3 4, Complex128 0 5], ctx = c\<rparr>)"
  by (simp add: countIf_def isAccessorArray_def accessors_def resolveGetter_def x_get_def
      x_length_def complex_predicate_def accessors_loop.simps)

text \<open>
  C9. \<open>countIf\<close> never modifies the input collection: with a predicate that does not
  itself write \<open>x\<close> (it may write the context), the call returns and the elements and
  the length of \<open>x\<close> after it are those before it.
\<close>

theorem countIf_leaves_collection:
  assumes "\<forall>v i x w. elems (snd (p v i x w)) = elems w"
  shows "\<exists>n w'. countIf x p w = Some (n, w') \<and>
    elems w' = elems w \<and> length (elems w') = length (elems w)"
proof -
  have "fixed_length p"
    using assms by (simp add: fixed_length_def)
  then show ?thesis
    using countIf_returns [of p x w]
      passing_elems [OF assms, of x "[0..<length (elems w)]" w]
    by (cases "passing x p [0..<length (elems w)] w") (simp add: count_spec_def)
qed

theorem countIf_leaves_collection_witness:
  "(\<forall>v i x w. elems (snd (counting_predicate v i x w)) = elems w) \<and>
   (\<exists>n w'. countIf Generic counting_predicate
      \<lparr>elems = [Number 1, Number 0, Number 2], ctx = \<lparr>count = 0\<rparr>\<rparr> = Some (n, w') \<and>
      elems w' = [Number 1, Number 0, Number 2] \<and> length (elems w') = 3)"
proof -
  have h: "\<forall>v i x w. elems (snd (counting_predicate v i x w)) = elems w"
    by (simp add: counting_predicate_def)
  from countIf_leaves_collection [OF h, of Generic
      "\<lparr>elems = [Number 1, Number 0, Number 2], ctx = \<lparr>count = 0\<rparr>\<rparr>"]
  obtain n w' where "countIf Generic counting_predicate
      \<lparr>elems = [Number 1, Number 0, Number 2], ctx = \<lparr>count = 0\<rparr>\<rparr> = Some (n, w') \<and>
      elems w' = [Number 1, Number 0, Number 2] \<and> length (elems w') = 3"
    by auto
  with h show ?thesis by blast
qed

text \<open>
  C10. For every collection \<open>x\<close> (a fixed-length sequence), predicate and context, the
  result of \<open>countIf\<close> lies between 0 and \<open>x.length\<close>.
\<close>

theorem countIf_bounded:
  assumes "fixed_length p"
  shows "\<exists>n w'. countIf x p w = Some (n, w') \<and> 0 \<le> n \<and> n \<le> length (elems w)"
  using countIf_returns [OF assms, of x w]
    passing_bound [of x p "[0..<length (elems w)]" w]
  by (cases "passing x p [0..<length (elems w)] w") (simp add: count_spec_def)

theorem countIf_bounded_witness:
  "fixed_length (complex_predicate :: unit predicate) \<and>
   (\<exists>n w'. countIf AccessorArray complex_predicate
      \<lparr>elems = [Complex128 3 4, Complex128 0 5], ctx = ()\<rparr> = Some (n, w') \<and>
      0 \<le> n \<and> n \<le> 2)"
proof -
  have h: "fixed_length (complex_predicate :: unit predicate)"
    by (simp add: fixed_length_def complex_predicate_def)
  from countIf_bounded [OF h, of AccessorArray
      "\<lparr>elems = [Complex128 3 4, Complex128 0 5], ctx = ()\<rparr>"]
  obtain n w' where "countIf AccessorArray complex_predicate
      \<lparr>elems = [Complex128 3 4, Complex128 0 5], ctx = ()\<rparr> = Some (n, w') \<and>
      0 \<le> n \<and> n \<le> 2"
    by auto
  with h show ?thesis by blast
qed

end
